theory Spec2Isabelle
  imports Main "HOL-Library.Word"
begin

section \<open>Data model\<close>

text \<open>
  A \<^verbatim>\<open>Buff\<close> extends \<^verbatim>\<open>Uint8Array\<close>: a fixed-length sequence of 8-bit unsigned
  values. JavaScript numbers are modelled as unbounded integers (the fractional and the
  rounding behaviour of doubles is outside this development).
\<close>

type_synonym byte = "8 word"
type_synonym bytes = "byte list"

datatype Endian = BE | LE

text \<open>
  Every \<^verbatim>\<open>throw new Error(...)\<close> of \<^verbatim>\<open>buff.ts\<close> is one constructor; the last
  one is the failure of a decoding collaborator.
\<close>

datatype error = SizeExceeded | ValueTooLarge | InvalidPrefix | MalformedEncoding

text \<open>
  \<^verbatim>\<open>%TypedArray%.prototype.slice(start, end)\<close> of ECMAScript: a negative index counts
  from the end, both indices are clamped to the length, and an empty range gives an
  empty array. The result is a copy.
\<close>

definition rel_index :: "int \<Rightarrow> nat \<Rightarrow> nat" where
  "rel_index i len = (if i < 0 then nat (max (int len + i) 0) else nat (min i (int len)))"

definition slice_arr :: "'a list \<Rightarrow> int \<Rightarrow> int option \<Rightarrow> 'a list" where
  "slice_arr xs start fin =
     (let len = length xs;
          k = rel_index start len;
          final = (case fin of None \<Rightarrow> len | Some e \<Rightarrow> rel_index e len)
      in take (final - k) (drop k xs))"

section \<open>Collaborators of \<^verbatim>\<open>format/index.js\<close> and \<^verbatim>\<open>utils.js\<close>\<close>

text \<open>
  Modelled from the spec: \<^verbatim>\<open>fmt.buffer\<close> (generic byte coercion) is missing from the
  sources. For a source that is already a byte sequence the spec names the identity
  (``raw bytes: already-bytes, identity''); only that source kind is modelled.
\<close>

definition buffer :: "bytes \<Rightarrow> bytes" where
  "buffer data = data"

text \<open>
  Modelled from the spec: \<^verbatim>\<open>fmt.numToBytes\<close> is missing from the sources. The spec
  calls its output the ``internal little-endian natural byte order'', which
  \<^verbatim>\<open>numToBuff\<close> reverses for big-endian: the base-256 digits of the number, least
  significant first, with no leading zero digit (zero and negative numbers have none).
\<close>

function numToBytes :: "int \<Rightarrow> bytes" where
  "numToBytes n = (if n \<le> 0 then [] else word_of_int (n mod 256) # numToBytes (n div 256))"
  by pat_completeness auto
termination
  by (relation "measure nat") auto

declare numToBytes.simps [simp del]

text \<open>
  Modelled from the spec: \<^verbatim>\<open>fmt.bytesToNum\<close> is missing from the sources. It reads a
  byte sequence in the same little-endian natural order as an unsigned integer.
\<close>

fun bytesToNum :: "bytes \<Rightarrow> int" where
  "bytesToNum [] = 0"
| "bytesToNum (b # bs) = uint b + 256 * bytesToNum bs"

text \<open>
  Modelled from the spec: \<^verbatim>\<open>util.pad_array\<close> is missing from the sources. The spec
  gives its contract (``pad/truncate-to-size(bytes, target length) \<rightarrow> bytes of exactly
  target length'') and leaves open on which side the zero bytes go, so both policies
  are modelled: \<open>PadStart\<close> keeps the bytes right-aligned (zeros in front, truncation
  drops leading bytes), \<open>PadEnd\<close> keeps them left-aligned.
\<close>

datatype pad_side = PadStart | PadEnd

definition pad_array :: "pad_side \<Rightarrow> bytes \<Rightarrow> nat \<Rightarrow> bytes" where
  "pad_array side bs n =
     (case side of
        PadStart \<Rightarrow> replicate (n - length bs) 0 @ drop (length bs - n) bs
      | PadEnd \<Rightarrow> take n bs @ replicate (n - length bs) 0)"

section \<open>\<^verbatim>\<open>class Buff\<close>\<close>

text \<open>
  The constructor \<^verbatim>\<open>new Buff(data, size?)\<close>. The padding collaborator is the
  parameter \<open>pad\<close>; it is consulted only when a size is given.
\<close>

definition Buff_ctor :: "(bytes \<Rightarrow> nat \<Rightarrow> bytes) \<Rightarrow> bytes \<Rightarrow> nat option \<Rightarrow> bytes" where
  "Buff_ctor pad data sz =
     (let bs = buffer data
      in case sz of Some n \<Rightarrow> pad bs n | None \<Rightarrow> bs)"

text \<open>\<^verbatim>\<open>new Buff(data)\<close>: the constructor with the size omitted.\<close>

definition Buff_new :: "bytes \<Rightarrow> bytes" where
  "Buff_new data = buffer data"

definition endian_or_be :: "Endian option \<Rightarrow> Endian" where
  "endian_or_be e = (case e of None \<Rightarrow> BE | Some x \<Rightarrow> x)"

text \<open>\<^verbatim>\<open>reverse()\<close>: a fresh \<^verbatim>\<open>Uint8Array\<close> copy is reversed and wrapped.\<close>

definition reverse :: "bytes \<Rightarrow> bytes" where
  "reverse this = Buff_new (rev this)"

text \<open>\<^verbatim>\<open>toNum(endian = 'be')\<close> and the getter \<^verbatim>\<open>num\<close>.\<close>

definition toNum :: "Endian option \<Rightarrow> bytes \<Rightarrow> int" where
  "toNum endian this =
     (let bs = (if endian_or_be endian = BE then reverse this else this)
      in bytesToNum bs)"

definition num :: "bytes \<Rightarrow> int" where
  "num this = toNum None this"

text \<open>\<^verbatim>\<open>Buff.of(...args)\<close>: \<^verbatim>\<open>Uint8Array.of\<close> stores every number modulo 256.\<close>

definition Buff_of :: "int list \<Rightarrow> bytes" where
  "Buff_of args = Buff_new (map word_of_int args)"

text \<open>Spreading a buffer (\<^verbatim>\<open>...buff\<close>) yields its elements as numbers.\<close>

definition spread :: "bytes \<Rightarrow> int list" where
  "spread b = map uint b"

text \<open>\<^verbatim>\<open>numToBuff(number, size?, endian = 'be')\<close>, exported as \<^verbatim>\<open>Buff.num\<close>.\<close>

definition numToBuff ::
  "(bytes \<Rightarrow> nat \<Rightarrow> bytes) \<Rightarrow> int \<Rightarrow> nat option \<Rightarrow> Endian option \<Rightarrow> bytes" where
  "numToBuff pad number sz endian =
     (let n = numToBytes number;
          n' = (if endian_or_be endian = BE then rev n else n)
      in Buff_ctor pad n' sz)"

text \<open>\<^verbatim>\<open>bytesToBuff(data, size?)\<close>, exported as \<^verbatim>\<open>Buff.bytes\<close>.\<close>

definition bytesToBuff :: "(bytes \<Rightarrow> nat \<Rightarrow> bytes) \<Rightarrow> bytes \<Rightarrow> nat option \<Rightarrow> bytes" where
  "bytesToBuff pad data sz = Buff_ctor pad data sz"

text \<open>\<^verbatim>\<open>Buff.varInt(num, endian?)\<close>.\<close>

definition varInt :: "(bytes \<Rightarrow> nat \<Rightarrow> bytes) \<Rightarrow> int \<Rightarrow> Endian option \<Rightarrow> error + bytes" where
  "varInt pad n endian =
     (if n < 0xFD then Inr (numToBuff pad n (Some 1) None)
      else if n < 0x10000 then Inr (Buff_of (0xFD # spread (numToBuff pad n (Some 2) endian)))
      else if n < 0x100000000 then Inr (Buff_of (0xFE # spread (numToBuff pad n (Some 4) endian)))
      else if n < 0x10000000000000000 then
        Inr (Buff_of (0xFF # spread (numToBuff pad n (Some 8) endian)))
      else Inl ValueTooLarge)"

section \<open>\<^verbatim>\<open>class Stream\<close>\<close>

record Stream =
  size_s :: int
  data_s :: bytes

text \<open>
  The constructor: \<^verbatim>\<open>this.data = Buff.bytes(data); this.size = this.data.length\<close>.
  \<^verbatim>\<open>Buff.bytes\<close> is called without a size, which is \<^verbatim>\<open>new Buff(data)\<close>.
\<close>

definition Stream_new :: "bytes \<Rightarrow> Stream" where
  "Stream_new d = (let d' = Buff_new d in \<lparr>size_s = int (length d'), data_s = d'\<rparr>)"

text \<open>
  A method returns its outcome together with the object as the call leaves it, also
  when it throws.
\<close>

definition peek :: "int \<Rightarrow> Stream \<Rightarrow> (error + bytes) \<times> Stream" where
  "peek sz s =
     (if sz > size_s s then (Inl SizeExceeded, s)
      else (Inr (Buff_new (slice_arr (data_s s) 0 (Some sz))), s))"

text \<open>
  The body of \<^verbatim>\<open>read\<close> once \<^verbatim>\<open>size\<close> is known. \<^verbatim>\<open>readSize\<close> calls \<^verbatim>\<open>read\<close> with a
  size only, so the mutual recursion of the two methods unfolds into three definitions.
\<close>

definition read_sized :: "int \<Rightarrow> Stream \<Rightarrow> (error + bytes) \<times> Stream" where
  "read_sized sz s =
     (case peek sz s of
        (Inl e, s1) \<Rightarrow> (Inl e, s1)
      | (Inr chunk, s1) \<Rightarrow>
          let s2 = s1\<lparr>data_s := slice_arr (data_s s1) sz None\<rparr>;
              s3 = s2\<lparr>size_s := int (length (data_s s2))\<rparr>
          in (Inr chunk, s3))"

definition readSize :: "Endian option \<Rightarrow> Stream \<Rightarrow> (error + int) \<times> Stream" where
  "readSize endian s =
     (case read_sized 1 s of
        (Inl e, s1) \<Rightarrow> (Inl e, s1)
      | (Inr b, s1) \<Rightarrow>
          let n = num b
          in if n \<ge> 0 \<and> n < 0xFD then (Inr n, s1)
             else if n = 0xFD then
               (case read_sized 2 s1 of
                  (Inl e, s2) \<Rightarrow> (Inl e, s2)
                | (Inr c, s2) \<Rightarrow> (Inr (toNum endian c), s2))
             else if n = 0xFE then
               (case read_sized 4 s1 of
                  (Inl e, s2) \<Rightarrow> (Inl e, s2)
                | (Inr c, s2) \<Rightarrow> (Inr (toNum endian c), s2))
             else if n = 0xFF then
               (case read_sized 8 s1 of
                  (Inl e, s2) \<Rightarrow> (Inl e, s2)
                | (Inr c, s2) \<Rightarrow> (Inr (toNum endian c), s2))
             else (Inl InvalidPrefix, s1))"

text \<open>\<^verbatim>\<open>read(size)\<close>: \<^verbatim>\<open>size = size ?? this.readSize()\<close>, then the body.\<close>

definition read :: "int option \<Rightarrow> Stream \<Rightarrow> (error + bytes) \<times> Stream" where
  "read sz s =
     (case sz of
        Some n \<Rightarrow> read_sized n s
      | None \<Rightarrow>
          (case readSize None s of
             (Inl e, s1) \<Rightarrow> (Inl e, s1)
           | (Inr n, s1) \<Rightarrow> read_sized n s1))"

text \<open>The invariant of a reader: the length field is the length of the bytes.\<close>

definition wf_stream :: "Stream \<Rightarrow> bool" where
  "wf_stream s = (size_s s = int (length (data_s s)))"

text \<open>A sequence of \<^verbatim>\<open>peek\<close> calls, whatever each one returns or throws.\<close>

fun peeks :: "int list \<Rightarrow> Stream \<Rightarrow> Stream" where
  "peeks [] s = s"
| "peeks (n # ns) s = peeks ns (snd (peek n s))"

text \<open>
  A sequence of \<^verbatim>\<open>read(size)\<close> calls collecting the chunks; the first exception
  ends it.
\<close>

fun reads :: "int list \<Rightarrow> Stream \<Rightarrow> (error + bytes list) \<times> Stream" where
  "reads [] s = (Inr [], s)"
| "reads (n # ns) s =
     (case read (Some n) s of
        (Inl e, s1) \<Rightarrow> (Inl e, s1)
      | (Inr c, s1) \<Rightarrow>
          (case reads ns s1 of
             (Inl e, s2) \<Rightarrow> (Inl e, s2)
           | (Inr cs, s2) \<Rightarrow> (Inr (c # cs), s2)))"

section \<open>Hex conversion\<close>

text \<open>
  Modelled from the spec: \<^verbatim>\<open>fmt.hexToBytes\<close> and \<^verbatim>\<open>fmt.bytesToHex\<close> are missing from
  the sources. The spec describes a hex source as ``even-length hex digits'', lets the
  decoder reject malformed input (\<open>MalformedEncoding\<close>) and shows lowercase output
  (\<^verbatim>\<open>"efbeadde"\<close>): two digits per byte, most significant digit first.
\<close>

definition hex_digit :: "char \<Rightarrow> nat option" where
  "hex_digit c = map_of (zip ''0123456789abcdef'' [0..<16] @ zip ''ABCDEF'' [10..<16]) c"

definition hex_char :: "nat \<Rightarrow> char" where
  "hex_char n = ''0123456789abcdef'' ! n"

fun hexToBytes :: "string \<Rightarrow> error + bytes" where
  "hexToBytes [] = Inr []"
| "hexToBytes [c] = Inl MalformedEncoding"
| "hexToBytes (c1 # c2 # cs) =
     (case (hex_digit c1, hex_digit c2) of
        (Some h, Some l) \<Rightarrow>
          (case hexToBytes cs of
             Inl e \<Rightarrow> Inl e
           | Inr bs \<Rightarrow> Inr (of_nat (16 * h + l) # bs))
      | _ \<Rightarrow> Inl MalformedEncoding)"

definition bytesToHex :: "bytes \<Rightarrow> string" where
  "bytesToHex bs = concat (map (\<lambda>b. [hex_char (unat b div 16), hex_char (unat b mod 16)]) bs)"

text \<open>\<^verbatim>\<open>hexToBuff(data, size?)\<close>, exported as \<^verbatim>\<open>Buff.hex\<close>, and \<^verbatim>\<open>toHex()\<close>.\<close>

definition hexToBuff :: "(bytes \<Rightarrow> nat \<Rightarrow> bytes) \<Rightarrow> string \<Rightarrow> nat option \<Rightarrow> error + bytes" where
  "hexToBuff pad data sz =
     (case hexToBytes data of
        Inl e \<Rightarrow> Inl e
      | Inr bs \<Rightarrow> Inr (Buff_ctor pad bs sz))"

definition toHex :: "bytes \<Rightarrow> string" where
  "toHex this = bytesToHex this"

section \<open>\<^verbatim>\<open>reverse()\<close> on a store of arrays\<close>

text \<open>
  \<^verbatim>\<open>reverse()\<close> is \<^verbatim>\<open>new Buff(new Uint8Array(this).reverse())\<close>: the typed-array
  constructor allocates a copy, \<^verbatim>\<open>Uint8Array.prototype.reverse\<close> reverses that copy in
  place and returns it, and the \<^verbatim>\<open>Buff\<close> constructor allocates the result. Whether the
  receiver is touched depends on this aliasing, so the store is explicit here: a list of
  arrays, an address being an index, allocation appending at the end.
\<close>

type_synonym heap = "bytes list"

definition alloc :: "heap \<Rightarrow> bytes \<Rightarrow> nat \<times> heap" where
  "alloc h bs = (length h, h @ [bs])"

definition reverse_in_place :: "heap \<Rightarrow> nat \<Rightarrow> heap" where
  "reverse_in_place h a = h[a := rev (h ! a)]"

definition reverse_heap :: "heap \<Rightarrow> nat \<Rightarrow> nat \<times> heap" where
  "reverse_heap h this =
     (let (arr, h1) = alloc h (h ! this);
          h2 = reverse_in_place h1 arr;
          (r, h3) = alloc h2 (buffer (h2 ! arr))
      in (r, h3))"

section \<open>The varint wire format as the spec words it\<close>

text \<open>
  The table of the spec (section 4.1), for comparison with \<open>varInt\<close>: a \<open>w\<close>-byte
  integer equal to the value, in the requested endianness, after the marker byte.
\<close>

fun le_bytes :: "nat \<Rightarrow> int \<Rightarrow> bytes" where
  "le_bytes 0 n = []"
| "le_bytes (Suc w) n = word_of_int (n mod 256) # le_bytes w (n div 256)"

definition spec_fixed :: "Endian \<Rightarrow> nat \<Rightarrow> int \<Rightarrow> bytes" where
  "spec_fixed e w n = (case e of LE \<Rightarrow> le_bytes w n | BE \<Rightarrow> rev (le_bytes w n))"

definition spec_varInt :: "int \<Rightarrow> Endian option \<Rightarrow> error + bytes" where
  "spec_varInt v endian =
     (if v < 0xFD then Inr [word_of_int v]
      else if v < 0x10000 then Inr (0xFD # spec_fixed (endian_or_be endian) 2 v)
      else if v < 0x100000000 then Inr (0xFE # spec_fixed (endian_or_be endian) 4 v)
      else if v < 2 ^ 64 then Inr (0xFF # spec_fixed (endian_or_be endian) 8 v)
      else Inl ValueTooLarge)"

text \<open>
  Encoding with \<^verbatim>\<open>Buff.varInt(n, endian)\<close>, then decoding with
  \<^verbatim>\<open>readSize(endian)\<close> on a reader over exactly the bytes produced.
\<close>

definition varInt_readSize ::
  "(bytes \<Rightarrow> nat \<Rightarrow> bytes) \<Rightarrow> int \<Rightarrow> Endian option \<Rightarrow> error + int \<times> Stream" where
  "varInt_readSize pad n endian =
     (case varInt pad n endian of
        Inl e \<Rightarrow> Inl e
      | Inr bs \<Rightarrow>
          (case readSize endian (Stream_new bs) of
             (Inl e, s) \<Rightarrow> Inl e
           | (Inr v, s) \<Rightarrow> Inr (v, s)))"

text \<open>
  The padding side that suits an endianness: zeros in front for big-endian, behind for
  little-endian.
\<close>

definition aligned :: "pad_side \<Rightarrow> Endian option \<Rightarrow> bool" where
  "aligned side endian =
     (case endian_or_be endian of BE \<Rightarrow> side = PadStart | LE \<Rightarrow> side = PadEnd)"

section \<open>Properties of the reader\<close>

lemma slice_arr_prefix: "0 \<le> sz \<Longrightarrow> slice_arr xs 0 (Some sz) = take (nat sz) xs"
  by (auto simp: slice_arr_def rel_index_def Let_def min_def)

lemma slice_arr_suffix: "0 \<le> sz \<Longrightarrow> slice_arr xs sz None = drop (nat sz) xs"
  by (auto simp: slice_arr_def rel_index_def Let_def min_def)

lemma length_slice_arr_le: "length (slice_arr xs a b) \<le> length xs"
  by (simp add: slice_arr_def Let_def)

lemma peek_state: "snd (peek sz s) = s"
  by (simp add: peek_def)

lemma peek_fails_iff: "fst (peek sz s) = Inl SizeExceeded \<longleftrightarrow> sz > size_s s"
  by (simp add: peek_def)

lemma peek_isl_iff: "isl (fst (peek sz s)) \<longleftrightarrow> sz > size_s s"
  by (simp add: peek_def)

lemma read_sized_fails_iff: "fst (read_sized sz s) = Inl SizeExceeded \<longleftrightarrow> sz > size_s s"
  by (simp add: read_sized_def peek_def Let_def)

lemma read_sized_isl_iff: "isl (fst (read_sized sz s)) \<longleftrightarrow> sz > size_s s"
  by (simp add: read_sized_def peek_def Let_def)

lemma read_sized_failure_state: "sz > size_s s \<Longrightarrow> read_sized sz s = (Inl SizeExceeded, s)"
  by (simp add: read_sized_def peek_def)

lemma read_Some: "read (Some sz) s = read_sized sz s"
  by (simp add: read_def)

lemma read_sized_success:
  "sz \<le> size_s s \<Longrightarrow>
   read_sized sz s =
     (Inr (slice_arr (data_s s) 0 (Some sz)),
      \<lparr>size_s = int (length (slice_arr (data_s s) sz None)),
       data_s = slice_arr (data_s s) sz None\<rparr>)"
  by (simp add: read_sized_def peek_def Let_def Buff_new_def buffer_def)

lemma read_sized_nonneg:
  "0 \<le> sz \<Longrightarrow> sz \<le> size_s s \<Longrightarrow>
   read_sized sz s =
     (Inr (take (nat sz) (data_s s)),
      \<lparr>size_s = int (length (data_s s) - nat sz), data_s = drop (nat sz) (data_s s)\<rparr>)"
  by (simp add: read_sized_success slice_arr_prefix slice_arr_suffix)

lemma wf_Stream_new: "wf_stream (Stream_new d)"
  by (simp add: wf_stream_def Stream_new_def Let_def)

lemma wf_read_sized: "wf_stream s \<Longrightarrow> wf_stream (snd (read_sized sz s))"
  by (cases "sz > size_s s") (simp_all add: read_sized_failure_state read_sized_success wf_stream_def)

lemma wf_read_sizedD: "read_sized sz s = (r, s') \<Longrightarrow> wf_stream s \<Longrightarrow> wf_stream s'"
  using wf_read_sized [of s sz] by simp

lemma wf_readSize: "wf_stream s \<Longrightarrow> wf_stream (snd (readSize e s))"
  unfolding readSize_def Let_def
  by (auto split: prod.splits sum.splits dest!: wf_read_sizedD)

lemma wf_read: "wf_stream s \<Longrightarrow> wf_stream (snd (read szo s))"
  unfolding read_def
  using wf_readSize [of s None]
  by (auto split: option.splits prod.splits sum.splits simp: wf_read_sized)

lemma bytesToNum_nonneg: "0 \<le> bytesToNum bs"
  by (induction bs) simp_all

lemma num_single_range: "length b \<le> 1 \<Longrightarrow> 0 \<le> num b \<and> num b \<le> 0xFF"
proof (cases b)
  case Nil
  then show ?thesis by (simp add: num_def toNum_def reverse_def Buff_new_def buffer_def)
next
  case (Cons x xs)
  assume "length b \<le> 1"
  with Cons have "xs = []" by simp
  moreover have "uint x \<le> 255" using uint_lt2p [of x] by simp
  ultimately show ?thesis using Cons
    by (simp add: num_def toNum_def reverse_def Buff_new_def buffer_def)
qed

lemma read_sized_chunk_length:
  "0 \<le> sz \<Longrightarrow> read_sized sz s = (Inr c, s') \<Longrightarrow> int (length c) \<le> sz"
  by (cases "sz > size_s s") (auto simp: read_sized_failure_state read_sized_nonneg)

lemma peeks_state: "peeks ns s = s"
  by (induction ns arbitrary: s) (simp_all add: peek_state)

lemma reads_partition:
  "wf_stream s \<Longrightarrow> \<forall>n\<in>set ns. 0 \<le> n \<Longrightarrow> sum_list ns \<le> size_s s \<Longrightarrow>
   \<exists>cs s'. reads ns s = (Inr cs, s') \<and> concat cs @ data_s s' = data_s s \<and>
            map (\<lambda>c. int (length c)) cs = ns \<and>
            size_s s' = size_s s - sum_list ns \<and> wf_stream s'"
proof (induction ns arbitrary: s)
  case Nil
  then show ?case by simp
next
  case (Cons n ns)
  have n0: "0 \<le> n" and rest0: "\<forall>m\<in>set ns. 0 \<le> m" using Cons.prems(2) by simp_all
  have sum0: "0 \<le> sum_list ns" using rest0 by (simp add: sum_list_nonneg)
  have nle: "n \<le> size_s s" using Cons.prems(3) sum0 by simp
  define s1 where "s1 = \<lparr>size_s = int (length (data_s s) - nat n), data_s = drop (nat n) (data_s s)\<rparr>"
  have rd: "read (Some n) s = (Inr (take (nat n) (data_s s)), s1)"
    using n0 nle by (simp add: read_Some read_sized_nonneg s1_def)
  have len: "size_s s = int (length (data_s s))" using Cons.prems(1) by (simp add: wf_stream_def)
  have wf1: "wf_stream s1" by (simp add: s1_def wf_stream_def)
  have sz1: "size_s s1 = size_s s - n" using n0 nle len by (simp add: s1_def)
  have "sum_list ns \<le> size_s s1" using Cons.prems(3) sz1 by simp
  from Cons.IH [OF wf1 rest0 this] obtain cs s' where
    r: "reads ns s1 = (Inr cs, s')" and c: "concat cs @ data_s s' = data_s s1"
    and m: "map (\<lambda>c. int (length c)) cs = ns"
    and z: "size_s s' = size_s s1 - sum_list ns" and w: "wf_stream s'" by blast
  have a: "reads (n # ns) s = (Inr (take (nat n) (data_s s) # cs), s')"
    using rd r by simp
  have b: "concat (take (nat n) (data_s s) # cs) @ data_s s' = data_s s"
    using c by (simp add: s1_def)
  have "int (length (take (nat n) (data_s s))) = n" using n0 nle len by auto
  then have d: "map (\<lambda>c. int (length c)) (take (nat n) (data_s s) # cs) = n # ns"
    using m by simp
  have e: "size_s s' = size_s s - sum_list (n # ns)" using z sz1 by simp
  show ?case
    by (rule exI [of _ "take (nat n) (data_s s) # cs"], rule exI [of _ s'])
       (intro conjI a b d e w)
qed

lemma num_single: "num [b] = uint b"
  by (simp add: num_def toNum_def reverse_def Buff_new_def buffer_def)

lemma read_sized_wf:
  assumes "wf_stream s" and "0 \<le> k" and "k \<le> int (length (data_s s))"
  shows "read_sized k s =
           (Inr (take (nat k) (data_s s)),
            \<lparr>size_s = int (length (drop (nat k) (data_s s))), data_s = drop (nat k) (data_s s)\<rparr>)"
  using assms by (simp add: read_sized_nonneg wf_stream_def)

lemma read_sized_Inr_split:
  assumes "wf_stream s" and "0 \<le> k" and "read_sized k s = (Inr c, s')"
  shows "data_s s = c @ data_s s' \<and> int (length c) = k \<and> wf_stream s' \<and>
         size_s s' = size_s s - k"
proof (cases "k > size_s s")
  case True
  then show ?thesis using assms(3) by (simp add: read_sized_failure_state)
next
  case False
  then have "k \<le> int (length (data_s s))" using assms(1) by (simp add: wf_stream_def)
  from read_sized_wf [OF assms(1,2) this] assms(3)
  have c: "c = take (nat k) (data_s s)"
    and s': "s' = \<lparr>size_s = int (length (drop (nat k) (data_s s))), data_s = drop (nat k) (data_s s)\<rparr>"
    by simp_all
  show ?thesis using assms(1,2) False by (auto simp: c s' wf_stream_def)
qed

lemma readSize_branch:
  assumes "wf_stream s1" and "0 \<le> k"
    and "(case read_sized k s1 of
            (Inl e, s2) \<Rightarrow> (Inl e, s2)
          | (Inr c, s2) \<Rightarrow> (Inr (toNum endian c), s2)) = (Inr n, s')"
  shows "\<exists>c. data_s s1 = c @ data_s s' \<and> int (length c) = k \<and> n = toNum endian c \<and>
             wf_stream s' \<and> size_s s' = size_s s1 - k"
proof (cases "read_sized k s1")
  case (Pair r s2)
  show ?thesis
  proof (cases r)
    case (Inl e)
    then show ?thesis using assms(3) Pair by simp
  next
    case (Inr c)
    then have "s2 = s'" and "n = toNum endian c" using assms(3) Pair by simp_all
    then show ?thesis using read_sized_Inr_split [OF assms(1,2), of c s'] Pair Inr by auto
  qed
qed

lemma readSize_Inr_cases:
  assumes "wf_stream s" and "readSize endian s = (Inr n, s')"
  shows "\<exists>b c. data_s s = b # c @ data_s s' \<and> wf_stream s' \<and>
           size_s s' = size_s s - (1 + int (length c)) \<and>
           (uint b < 0xFD \<and> c = [] \<and> n = uint b \<or>
            b = 0xFD \<and> length c = 2 \<and> n = toNum endian c \<or>
            b = 0xFE \<and> length c = 4 \<and> n = toNum endian c \<or>
            b = 0xFF \<and> length c = 8 \<and> n = toNum endian c)"
proof (cases "read_sized 1 s")
  case (Pair r s1)
  show ?thesis
  proof (cases r)
    case (Inl e)
    then show ?thesis using assms(2) Pair by (simp add: readSize_def)
  next
    case (Inr hd1)
    from read_sized_Inr_split [OF assms(1), of 1 hd1 s1] Pair Inr
    have d: "data_s s = hd1 @ data_s s1" and l: "length hd1 = 1" and w1: "wf_stream s1"
      and z1: "size_s s1 = size_s s - 1"
      by simp_all
    from l obtain b where hd1: "hd1 = [b]" by (cases hd1) auto
    have nb: "num hd1 = uint b" by (simp add: hd1 num_single)
    have ub: "0 \<le> uint b" "uint b < 256" using uint_lt2p [of b] by simp_all
    have rs: "readSize endian s =
        (if uint b < 0xFD then (Inr (uint b), s1)
         else if uint b = 0xFD then
           (case read_sized 2 s1 of (Inl e, s2) \<Rightarrow> (Inl e, s2)
            | (Inr c, s2) \<Rightarrow> (Inr (toNum endian c), s2))
         else if uint b = 0xFE then
           (case read_sized 4 s1 of (Inl e, s2) \<Rightarrow> (Inl e, s2)
            | (Inr c, s2) \<Rightarrow> (Inr (toNum endian c), s2))
         else
           (case read_sized 8 s1 of (Inl e, s2) \<Rightarrow> (Inl e, s2)
            | (Inr c, s2) \<Rightarrow> (Inr (toNum endian c), s2)))"
      using ub by (simp add: readSize_def Pair Inr nb Let_def)
    consider (small) "uint b < 0xFD" | (fd) "uint b = 0xFD" | (fe) "uint b = 0xFE"
      | (ff) "uint b = 0xFF"
      using ub by linarith
    then show ?thesis
    proof cases
      case small
      then have "n = uint b" "s' = s1" using rs assms(2) by simp_all
      then show ?thesis using small d hd1 w1 z1 by auto
    next
      case fd
      then have b: "b = 0xFD" by (metis word_of_int_uint word_of_int_numeral)
      from fd rs assms(2) have
        "(case read_sized 2 s1 of (Inl e, s2) \<Rightarrow> (Inl e, s2)
          | (Inr c, s2) \<Rightarrow> (Inr (toNum endian c), s2)) = (Inr n, s')" by simp
      from readSize_branch [OF w1 _ this] obtain c where
        "data_s s1 = c @ data_s s'" "int (length c) = 2" "n = toNum endian c" "wf_stream s'"
        "size_s s' = size_s s1 - 2" by auto
      then show ?thesis using b d hd1 z1 by auto
    next
      case fe
      then have b: "b = 0xFE" by (metis word_of_int_uint word_of_int_numeral)
      from fe rs assms(2) have
        "(case read_sized 4 s1 of (Inl e, s2) \<Rightarrow> (Inl e, s2)
          | (Inr c, s2) \<Rightarrow> (Inr (toNum endian c), s2)) = (Inr n, s')" by simp
      from readSize_branch [OF w1 _ this] obtain c where
        "data_s s1 = c @ data_s s'" "int (length c) = 4" "n = toNum endian c" "wf_stream s'"
        "size_s s' = size_s s1 - 4" by auto
      then show ?thesis using b d hd1 z1 by auto
    next
      case ff
      then have b: "b = 0xFF" by (metis word_of_int_uint word_of_int_numeral)
      from ff rs assms(2) have
        "(case read_sized 8 s1 of (Inl e, s2) \<Rightarrow> (Inl e, s2)
          | (Inr c, s2) \<Rightarrow> (Inr (toNum endian c), s2)) = (Inr n, s')" by simp
      from readSize_branch [OF w1 _ this] obtain c where
        "data_s s1 = c @ data_s s'" "int (length c) = 8" "n = toNum endian c" "wf_stream s'"
        "size_s s' = size_s s1 - 8" by auto
      then show ?thesis using b d hd1 z1 by auto
    qed
  qed
qed

lemma Buff_ctor_None: "Buff_ctor pad data None = Buff_new data"
  by (simp add: Buff_ctor_def Buff_new_def)

lemma bytesToBuff_None: "bytesToBuff pad data None = Buff_new data"
  by (simp add: bytesToBuff_def Buff_ctor_None)

lemma toNum_nonneg: "0 \<le> toNum endian c"
  by (simp add: toNum_def Let_def bytesToNum_nonneg)

lemma wf_stream_eq: "wf_stream s \<Longrightarrow> s = \<lparr>size_s = int (length (data_s s)), data_s = data_s s\<rparr>"
  by (cases s) (simp add: wf_stream_def)

lemma readSize_nonneg:
  assumes "wf_stream s" and "readSize endian s = (Inr n, s1)"
  shows "0 \<le> n"
proof -
  from readSize_Inr_cases [OF assms] obtain b c where
    d: "data_s s = b # c @ data_s s1" and w1: "wf_stream s1"
    and z1: "size_s s1 = size_s s - (1 + int (length c))"
    and cs: "uint b < 0xFD \<and> c = [] \<and> n = uint b \<or>
          b = 0xFD \<and> length c = 2 \<and> n = toNum endian c \<or>
          b = 0xFE \<and> length c = 4 \<and> n = toNum endian c \<or>
          b = 0xFF \<and> length c = 8 \<and> n = toNum endian c" by blast
  show ?thesis using cs toNum_nonneg [of endian c] by auto
qed

lemma read_without_size_succeeds:
  assumes "wf_stream s" and "readSize None s = (Inr n, s1)" and "n \<le> size_s s1"
  shows "read None s =
           (Inr (take (nat n) (data_s s1)),
            \<lparr>size_s = int (length (data_s s1) - nat n), data_s = drop (nat n) (data_s s1)\<rparr>)"
proof -
  have n0: "0 \<le> n" by (rule readSize_nonneg [OF assms(1,2)])
  have "read None s = read_sized n s1" by (simp add: read_def assms(2))
  then show ?thesis using read_sized_nonneg [OF n0 assms(3)] by simp
qed

section \<open>The claims about the reader\<close>

text \<open>
  Claim C3. \<^verbatim>\<open>Stream.readSize\<close> never reaches its defensive failure for an invalid
  leading byte: the number read from the first byte lies in 0..255, and each of these
  values is taken by one of the four cases before the default. This holds for every
  reader state, in particular for every reader with at least one remaining byte.
\<close>

theorem readSize_never_InvalidPrefix:
  "fst (readSize endian s) \<noteq> Inl InvalidPrefix"
proof (cases "read_sized 1 s")
  case (Pair r s1)
  show ?thesis
  proof (cases r)
    case (Inl err)
    have "err = SizeExceeded"
      using Pair Inl by (cases "1 > size_s s") (auto simp: read_sized_failure_state read_sized_nonneg)
    then show ?thesis using Pair Inl by (simp add: readSize_def)
  next
    case (Inr b)
    have "int (length b) \<le> 1" using read_sized_chunk_length [of 1 s b s1] Pair Inr by simp
    then have rng: "0 \<le> num b \<and> num b \<le> 0xFF" using num_single_range [of b] by simp
    have other: "\<And>k s0. fst (read_sized k s0) \<noteq> Inl InvalidPrefix"
      by (simp add: read_sized_def peek_def Let_def)
    show ?thesis
      using Pair Inr rng other [of 2 s1] other [of 4 s1] other [of 8 s1]
      by (auto simp: readSize_def Let_def split: prod.splits sum.splits)
  qed
qed

text \<open>
  Claim C4. For a reader whose length field agrees with its bytes, \<^verbatim>\<open>peek(size)\<close> and
  \<^verbatim>\<open>read(size)\<close> fail exactly when \<open>size\<close> exceeds the remaining length, the failure
  is \<open>SizeExceeded\<close>, and the failing call leaves the reader as it was.
\<close>

theorem peek_read_SizeExceeded_iff:
  assumes "wf_stream s"
  shows "(fst (peek sz s) = Inl SizeExceeded \<longleftrightarrow> sz > int (length (data_s s))) \<and>
         (fst (read (Some sz) s) = Inl SizeExceeded \<longleftrightarrow> sz > int (length (data_s s))) \<and>
         (isl (fst (peek sz s)) \<longleftrightarrow> sz > int (length (data_s s))) \<and>
         (isl (fst (read (Some sz) s)) \<longleftrightarrow> sz > int (length (data_s s))) \<and>
         (sz > int (length (data_s s)) \<longrightarrow> snd (peek sz s) = s \<and> snd (read (Some sz) s) = s)"
proof -
  have len: "size_s s = int (length (data_s s))" using assms by (simp add: wf_stream_def)
  show ?thesis
    unfolding read_Some
    using peek_fails_iff [of sz s] read_sized_fails_iff [of sz s] peek_isl_iff [of sz s]
      read_sized_isl_iff [of sz s] peek_state [of sz s] read_sized_failure_state [of s sz]
    by (simp add: len)
qed

theorem peek_read_SizeExceeded_iff_witness:
  "wf_stream (snd (read (Some 1) (Stream_new [1, 2, 3]))) \<and>
   fst (peek 3 (snd (read (Some 1) (Stream_new [1, 2, 3])))) = Inl SizeExceeded \<and>
   fst (read (Some 3) (snd (read (Some 1) (Stream_new [1, 2, 3])))) = Inl SizeExceeded \<and>
   snd (read (Some 3) (snd (read (Some 1) (Stream_new [1, 2, 3])))) =
     \<lparr>size_s = 2, data_s = [2, 3]\<rparr>"
proof -
  have s: "snd (read (Some 1) (Stream_new [1, 2, 3])) = \<lparr>size_s = 2, data_s = [2, 3]\<rparr>"
    by (simp add: read_def read_sized_def peek_def Stream_new_def Buff_new_def buffer_def
        slice_arr_def rel_index_def Let_def)
  have w: "wf_stream \<lparr>size_s = 2, data_s = [2, 3]\<rparr>" by (simp add: wf_stream_def)
  show ?thesis
    using peek_read_SizeExceeded_iff [OF w, of 3] w unfolding s by simp
qed

text \<open>
  Claim C5, amended. For a reader whose length field agrees with its bytes and every
  size with \<open>0 \<le> size \<le> remaining length\<close>, \<^verbatim>\<open>peek(size)\<close> returns exactly the first
  \<open>size\<close> remaining bytes (a copy: \<^verbatim>\<open>slice\<close> allocates) and leaves the reader as it
  was; any finite sequence of \<^verbatim>\<open>peek\<close> calls, failing or not, leaves the reader
  unchanged.
\<close>

theorem peek_prefix_nondestructive:
  assumes "wf_stream s" and "0 \<le> sz" and "sz \<le> int (length (data_s s))"
  shows "peek sz s = (Inr (take (nat sz) (data_s s)), s) \<and>
         int (length (take (nat sz) (data_s s))) = sz \<and>
         peeks szs s = s"
proof -
  have "sz \<le> size_s s" using assms(1,3) by (simp add: wf_stream_def)
  then have "peek sz s = (Inr (take (nat sz) (data_s s)), s)"
    using assms(2) by (simp add: peek_def slice_arr_prefix Buff_new_def buffer_def)
  moreover have "int (length (take (nat sz) (data_s s))) = sz" using assms(2,3) by auto
  ultimately show ?thesis by (simp add: peeks_state)
qed

text \<open>The amended claim C5 at a fresh three-byte reader.\<close>

theorem peek_prefix_nondestructive_witness:
  "wf_stream (Stream_new [1, 2, 3]) \<and> (0::int) \<le> 2 \<and>
   (2::int) \<le> int (length (data_s (Stream_new [1, 2, 3]))) \<and>
   peek 2 (Stream_new [1, 2, 3]) = (Inr [1, 2], Stream_new [1, 2, 3]) \<and>
   peeks [2, 5, 0, -1] (Stream_new [1, 2, 3]) = Stream_new [1, 2, 3]"
proof -
  have w: "wf_stream (Stream_new [1, 2, 3])" by (rule wf_Stream_new)
  have d: "data_s (Stream_new [1, 2, 3]) = [1, 2, 3]"
    by (simp add: Stream_new_def Buff_new_def buffer_def)
  have l: "(2::int) \<le> int (length (data_s (Stream_new [1, 2, 3])))" by (simp add: d)
  show ?thesis
    using peek_prefix_nondestructive [OF w _ l, of "[2, 5, 0, -1]"] w l
    by (simp add: d peek_state)
qed

text \<open>
  Claim C5 as stated fails for a negative size: \<open>-1\<close> does not exceed the remaining
  length, \<^verbatim>\<open>slice(0, -1)\<close> counts from the end, and \<^verbatim>\<open>peek(-1)\<close> returns two of the
  three remaining bytes.
\<close>

theorem peek_negative_size_counterexample:
  "(-1::int) \<le> size_s (Stream_new [1, 2, 3]) \<and>
   fst (peek (-1) (Stream_new [1, 2, 3])) = Inr [1, 2] \<and>
   fst (peek (-1) (Stream_new [1, 2, 3])) \<noteq>
     Inr (take (nat (-1)) (data_s (Stream_new [1, 2, 3])))"
  by (simp add: peek_def Stream_new_def Buff_new_def buffer_def slice_arr_def rel_index_def)

text \<open>
  Claim C6, amended. The length field equals the length of the bytes after construction
  and after every \<^verbatim>\<open>peek\<close>, \<^verbatim>\<open>read\<close> and \<^verbatim>\<open>readSize\<close>; a successful
  \<^verbatim>\<open>read(size)\<close> with \<open>size \<ge> 0\<close> consumes exactly \<open>size\<close> bytes from the front; and
  reads with non-negative sizes that sum to the original length all succeed, drain the
  reader to length 0, and return chunks that concatenate to the original bytes.
\<close>

theorem stream_invariant_partition:
  "wf_stream (Stream_new d) \<and>
   (wf_stream s \<longrightarrow>
      wf_stream (snd (peek sz s)) \<and> wf_stream (snd (read szo s)) \<and>
      wf_stream (snd (readSize endian s))) \<and>
   (wf_stream s \<and> 0 \<le> sz \<and> fst (read (Some sz) s) = Inr chunk \<longrightarrow>
      size_s (snd (read (Some sz) s)) = size_s s - sz \<and> int (length chunk) = sz \<and>
      data_s s = chunk @ data_s (snd (read (Some sz) s))) \<and>
   ((\<forall>n\<in>set ns. 0 \<le> n) \<and> sum_list ns = int (length d) \<longrightarrow>
      (\<exists>cs s'. reads ns (Stream_new d) = (Inr cs, s') \<and> concat cs = d \<and>
         map (\<lambda>c. int (length c)) cs = ns \<and> size_s s' = 0 \<and> data_s s' = []))"
proof (intro conjI impI)
  show "wf_stream (Stream_new d)" by (rule wf_Stream_new)
next
  assume "wf_stream s"
  then show "wf_stream (snd (peek sz s))" by (simp add: peek_state)
next
  assume "wf_stream s"
  then show "wf_stream (snd (read szo s))" by (rule wf_read)
next
  assume "wf_stream s"
  then show "wf_stream (snd (readSize endian s))" by (rule wf_readSize)
next
  assume a: "wf_stream s \<and> 0 \<le> sz \<and> fst (read (Some sz) s) = Inr chunk"
  then have "read_sized sz s = (Inr chunk, snd (read (Some sz) s))"
    by (metis prod.collapse read_Some)
  from read_sized_Inr_split [OF _ _ this] a
  show "size_s (snd (read (Some sz) s)) = size_s s - sz"
    and "int (length chunk) = sz"
    and "data_s s = chunk @ data_s (snd (read (Some sz) s))" by simp_all
next
  assume a: "(\<forall>n\<in>set ns. 0 \<le> n) \<and> sum_list ns = int (length d)"
  have sz: "size_s (Stream_new d) = int (length d)" and dt: "data_s (Stream_new d) = d"
    by (simp_all add: Stream_new_def Buff_new_def buffer_def)
  from a have "sum_list ns \<le> size_s (Stream_new d)" by (simp add: sz)
  from reads_partition [OF wf_Stream_new _ this] a obtain cs s' where
    r: "reads ns (Stream_new d) = (Inr cs, s')" and c: "concat cs @ data_s s' = d"
    and m: "map (\<lambda>c. int (length c)) cs = ns" and z: "size_s s' = 0" and w: "wf_stream s'"
    by (auto simp: sz dt)
  from z w have e: "data_s s' = []" by (simp add: wf_stream_def)
  with c have c': "concat cs = d" by simp
  show "\<exists>cs s'. reads ns (Stream_new d) = (Inr cs, s') \<and> concat cs = d \<and>
         map (\<lambda>c. int (length c)) cs = ns \<and> size_s s' = 0 \<and> data_s s' = []"
    by (rule exI [of _ cs], rule exI [of _ s']) (intro conjI r c' m z e)
qed

text \<open>The amended claim C6 at a three-byte reader, read in chunks of 1, 0 and 2 bytes.\<close>

theorem stream_invariant_partition_witness:
  "wf_stream (Stream_new [1, 2, 3]) \<and>
   wf_stream (snd (read None (Stream_new [1, 2, 3]))) \<and>
   fst (read (Some 2) (Stream_new [1, 2, 3])) = Inr [1, 2] \<and>
   size_s (snd (read (Some 2) (Stream_new [1, 2, 3]))) = size_s (Stream_new [1, 2, 3]) - 2 \<and>
   list_all (\<lambda>n. 0 \<le> n) [1, 0, 2 :: int] \<and>
   sum_list [1, 0, 2] = int (length [1 :: byte, 2, 3]) \<and>
   (\<exists>cs s'. reads [1, 0, 2] (Stream_new [1, 2, 3]) = (Inr cs, s') \<and>
      concat cs = [1, 2, 3] \<and> size_s s' = 0)"
proof -
  note T = stream_invariant_partition [of "[1, 2, 3]" "Stream_new [1, 2, 3]" 2 None None
      "[1, 2]" "[1, 0, 2]"]
  have w: "wf_stream (Stream_new [1, 2, 3])" by (rule T [THEN conjunct1])
  have w2: "wf_stream (snd (read None (Stream_new [1, 2, 3])))"
    using T [THEN conjunct2, THEN conjunct1] w by simp
  have rd: "fst (read (Some 2) (Stream_new [1, 2, 3])) = Inr [1, 2]" by code_simp
  have sz: "size_s (snd (read (Some 2) (Stream_new [1, 2, 3]))) = size_s (Stream_new [1, 2, 3]) - 2"
    using T [THEN conjunct2, THEN conjunct2, THEN conjunct1] w rd by simp
  have pre: "(\<forall>n\<in>set [1, 0, 2 :: int]. 0 \<le> n) \<and> sum_list [1, 0, 2] = int (length [1 :: byte, 2, 3])"
    by simp
  from T [THEN conjunct2, THEN conjunct2, THEN conjunct2, THEN mp, OF pre]
  obtain cs s' where "reads [1, 0, 2] (Stream_new [1, 2, 3]) = (Inr cs, s')"
    and "concat cs = [1, 2, 3]" and "size_s s' = 0" by blast
  then have ex: "\<exists>cs s'. reads [1, 0, 2] (Stream_new [1, 2, 3]) = (Inr cs, s') \<and>
      concat cs = [1, 2, 3] \<and> size_s s' = 0" by blast
  have la: "list_all (\<lambda>n. 0 \<le> n) [1, 0, 2 :: int]" by simp
  have sm: "sum_list [1, 0, 2] = int (length [1 :: byte, 2, 3])" by simp
  show ?thesis by (intro conjI w w2 rd sz la sm ex)
qed

text \<open>
  Claim C6 as stated fails for a negative size: \<^verbatim>\<open>read(-1)\<close> succeeds on a three-byte
  reader and shortens it by two bytes, not by \<open>-1\<close>; and the sizes \<open>-1, 4\<close> sum to the
  original length 3 without draining the reader.
\<close>

theorem read_negative_size_counterexample:
  "fst (read (Some (-1)) (Stream_new [1, 2, 3])) = Inr [1, 2] \<and>
   size_s (Stream_new [1, 2, 3]) = 3 \<and>
   size_s (snd (read (Some (-1)) (Stream_new [1, 2, 3]))) = 1 \<and>
   size_s (snd (read (Some (-1)) (Stream_new [1, 2, 3]))) \<noteq>
     size_s (Stream_new [1, 2, 3]) - (-1) \<and>
   sum_list [-1, 4] = int (length [1::byte, 2, 3]) \<and>
   reads [-1, 4] (Stream_new [1, 2, 3]) = (Inl SizeExceeded, \<lparr>size_s = 1, data_s = [3]\<rparr>)"
  by (simp add: read_def read_sized_def peek_def Stream_new_def Buff_new_def buffer_def
      slice_arr_def rel_index_def Let_def)

text \<open>
  Claim C7. A successful \<^verbatim>\<open>read()\<close> with the size omitted splits the remaining bytes
  into a varint prefix of 1, 3, 5 or 9 bytes, the payload it returns, and the bytes it
  leaves: \<^verbatim>\<open>readSize()\<close> on the same reader consumes the prefix and yields the length
  of the payload, and the remaining length drops by prefix plus payload.
\<close>

theorem read_omitted_size:
  assumes "wf_stream s" and "read None s = (Inr payload, s')"
  shows "\<exists>prefix. data_s s = prefix @ payload @ data_s s' \<and>
           (length prefix = 1 \<or> length prefix = 3 \<or> length prefix = 5 \<or> length prefix = 9) \<and>
           readSize None s =
             (Inr (int (length payload)),
              \<lparr>size_s = int (length (payload @ data_s s')), data_s = payload @ data_s s'\<rparr>) \<and>
           size_s s' = size_s s - (int (length prefix) + int (length payload)) \<and>
           wf_stream s'"
proof (cases "readSize None s")
  case (Pair r s1)
  show ?thesis
  proof (cases r)
    case (Inl e)
    then show ?thesis using assms(2) Pair by (simp add: read_def)
  next
    case (Inr n)
    have rs: "readSize None s = (Inr n, s1)" using Pair Inr by simp
    have rd: "read_sized n s1 = (Inr payload, s')" using assms(2) rs by (simp add: read_def)
    from readSize_Inr_cases [OF assms(1) rs] obtain b c where
      d: "data_s s = b # c @ data_s s1" and w1: "wf_stream s1"
      and z1: "size_s s1 = size_s s - (1 + int (length c))"
      and cs: "uint b < 0xFD \<and> c = [] \<and> n = uint b \<or>
            b = 0xFD \<and> length c = 2 \<and> n = toNum None c \<or>
            b = 0xFE \<and> length c = 4 \<and> n = toNum None c \<or>
            b = 0xFF \<and> length c = 8 \<and> n = toNum None c" by blast
    have n0: "0 \<le> n" using cs toNum_nonneg [of None c] by auto
    from read_sized_Inr_split [OF w1 n0 rd]
    have d1: "data_s s1 = payload @ data_s s'" and ln: "int (length payload) = n"
      and w': "wf_stream s'" and z': "size_s s' = size_s s1 - n" by simp_all
    have lp: "length (b # c) = 1 \<or> length (b # c) = 3 \<or> length (b # c) = 5 \<or> length (b # c) = 9"
      using cs by auto
    have s1: "s1 = \<lparr>size_s = int (length (payload @ data_s s')), data_s = payload @ data_s s'\<rparr>"
      using wf_stream_eq [OF w1] d1 by simp
    have a: "data_s s = (b # c) @ payload @ data_s s'" using d d1 by simp
    have e: "readSize None s =
             (Inr (int (length payload)),
              \<lparr>size_s = int (length (payload @ data_s s')), data_s = payload @ data_s s'\<rparr>)"
      using rs s1 ln by simp
    have f: "size_s s' = size_s s - (int (length (b # c)) + int (length payload))"
      using z' z1 ln by simp
    show ?thesis
      by (rule exI [of _ "b # c"]) (intro conjI a lp e f w')
  qed
qed

text \<open>Claim C7 at a reader holding a three-byte prefix for the length 2.\<close>

theorem read_omitted_size_witness:
  "wf_stream (Stream_new [0xFD, 0, 2, 7, 8, 9]) \<and>
   read None (Stream_new [0xFD, 0, 2, 7, 8, 9]) = (Inr [7, 8], \<lparr>size_s = 1, data_s = [9]\<rparr>) \<and>
   (\<exists>prefix. [0xFD, 0, 2, 7, 8, 9] = prefix @ [7, 8] @ [9::byte] \<and> length prefix = 3) \<and>
   readSize None (Stream_new [0xFD, 0, 2, 7, 8, 9]) =
     (Inr 2, \<lparr>size_s = 3, data_s = [7, 8, 9]\<rparr>)"
proof -
  have w: "wf_stream (Stream_new [0xFD, 0, 2, 7, 8, 9])" by (rule wf_Stream_new)
  have d: "data_s (Stream_new [0xFD, 0, 2, 7, 8, 9]) = [0xFD, 0, 2, 7, 8, 9]"
    by (simp add: Stream_new_def Buff_new_def buffer_def)
  have r: "read None (Stream_new [0xFD, 0, 2, 7, 8, 9]) =
      (Inr [7, 8], \<lparr>size_s = 1, data_s = [9]\<rparr>)"
    by code_simp
  from read_omitted_size [OF w r] obtain prefix where
    p: "[0xFD, 0, 2, 7, 8, 9] = prefix @ [7, 8] @ [9::byte]"
    and q: "readSize None (Stream_new [0xFD, 0, 2, 7, 8, 9]) =
     (Inr 2, \<lparr>size_s = 3, data_s = [7, 8, 9]\<rparr>)"
    by (auto simp: d)
  from arg_cong [OF p, of length] have "length prefix = 3" by simp
  with p have "\<exists>prefix. [0xFD, 0, 2, 7, 8, 9] = prefix @ [7, 8] @ [9::byte] \<and> length prefix = 3"
    by (intro exI [of _ prefix] conjI)
  with q w r show ?thesis by (intro conjI)
qed

section \<open>Properties of the buffer and of the varint codec\<close>

lemma numToBytes_253: "numToBytes 253 = [0xFD]"
  by (simp add: numToBytes.simps)

lemma Buff_of_spread: "Buff_of (k # spread bs) = word_of_int k # bs"
  by (simp add: Buff_of_def spread_def Buff_new_def buffer_def map_idI)

lemma varInt_253: "varInt pad 253 endian = Inr (0xFD # pad [0xFD] 2)"
  by (cases "endian_or_be endian")
     (simp_all add: varInt_def numToBuff_def numToBytes_253 Buff_ctor_def buffer_def Buff_of_spread)

lemma stream_eq: "Stream_new d = \<lparr>size_s = int (length d), data_s = d\<rparr>"
  by (simp add: Stream_new_def Buff_new_def buffer_def)

lemma readSize_FD_short:
  "length c < 2 \<Longrightarrow> fst (readSize endian (Stream_new (0xFD # c))) = Inl SizeExceeded"
  by (simp add: readSize_def stream_eq read_sized_nonneg num_single read_sized_failure_state)

lemma readSize_FD_pair:
  "readSize endian (Stream_new (0xFD # a # b # rest)) =
     (Inr (toNum endian [a, b]), \<lparr>size_s = int (length rest), data_s = rest\<rparr>)"
  by (simp add: readSize_def stream_eq read_sized_nonneg num_single)

lemma toNum_pair_BE: "toNum (Some BE) [a, b] = uint b + 256 * uint a"
  by (simp add: toNum_def endian_or_be_def reverse_def Buff_new_def buffer_def)

lemma toNum_pair_LE: "toNum (Some LE) [a, b] = uint a + 256 * uint b"
  by (simp add: toNum_def endian_or_be_def)

lemma be_le_253_clash:
  fixes a b :: int
  assumes "0 \<le> a" and "0 \<le> b"
  shows "\<not> (b + 256 * a = 253 \<and> a + 256 * b = 253)"
proof
  assume c: "b + 256 * a = 253 \<and> a + 256 * b = 253"
  with assms have "a = 0" by linarith
  with c have "b = 253" by simp
  with c \<open>a = 0\<close> show False by simp
qed

lemma roundtrip_253_conflict:
  "\<not> (varInt_readSize pad 253 (Some BE) = Inr (253, s1) \<and>
      varInt_readSize pad 253 (Some LE) = Inr (253, s2))"
proof (cases "length (pad [0xFD] 2) < 2")
  case True
  then show ?thesis
    using readSize_FD_short [of "pad [0xFD] 2" "Some BE"]
    by (auto simp: varInt_readSize_def varInt_253 split: prod.splits sum.splits)
next
  case False
  then obtain a b rest where x: "pad [0xFD] 2 = a # b # rest"
    by (cases "pad [0xFD] 2"; cases "tl (pad [0xFD] 2)") auto
  have be: "varInt_readSize pad 253 (Some BE) =
      Inr (uint b + 256 * uint a, \<lparr>size_s = int (length rest), data_s = rest\<rparr>)"
    by (simp add: varInt_readSize_def varInt_253 x readSize_FD_pair toNum_pair_BE)
  have le: "varInt_readSize pad 253 (Some LE) =
      Inr (uint a + 256 * uint b, \<lparr>size_s = int (length rest), data_s = rest\<rparr>)"
    by (simp add: varInt_readSize_def varInt_253 x readSize_FD_pair toNum_pair_LE)
  have "\<not> (uint b + 256 * uint a = 253 \<and> uint a + 256 * uint b = 253)"
    by (rule be_le_253_clash) simp_all
  then show ?thesis unfolding be le by auto
qed

lemma length_pad_array: "length (pad_array side bs n) = n"
  by (cases side) (auto simp: pad_array_def)

lemma hexToBuff_deadbeef: "hexToBuff pad ''deadbeef'' None = Inr [0xDE, 0xAD, 0xBE, 0xEF]"
  by (simp add: hexToBuff_def hex_digit_def Buff_ctor_def buffer_def upt_rec)

lemma toHex_reverse_deadbeef: "toHex (reverse [0xDE, 0xAD, 0xBE, 0xEF]) = ''efbeadde''"
  by (simp add: toHex_def bytesToHex_def reverse_def Buff_new_def buffer_def hex_char_def)

lemma reverse_heap_eq:
  assumes "this < length h"
  shows "reverse_heap h this = (Suc (length h), h @ [rev (h ! this), rev (h ! this)])"
  using assms
  by (simp add: reverse_heap_def alloc_def reverse_in_place_def buffer_def nth_append)

lemma reverse_rev: "reverse b = rev b"
  by (simp add: reverse_def Buff_new_def buffer_def)

lemma numToBytes_nonpos: "n \<le> 0 \<Longrightarrow> numToBytes n = []"
  by (simp add: numToBytes.simps)

subsection \<open>Where the codec agrees with the wire format\<close>

text \<open>
  When the padding side suits the requested endianness, \<open>varInt\<close> produces the wire
  format of the spec for every non-negative value, and \<open>readSize\<close> over those bytes
  returns the value and consumes them all. Values of \<open>2 ^ 64\<close> and more are rejected
  whatever the padding.
\<close>

lemma le_bytes_zero: "le_bytes w 0 = replicate w 0"
  by (induction w) simp_all

lemma length_le_bytes: "length (le_bytes w n) = w"
  by (induction w arbitrary: n) simp_all

lemma numToBytes_pos:
  "0 < n \<Longrightarrow> numToBytes n = word_of_int (n mod 256) # numToBytes (n div 256)"
  by (simp add: numToBytes.simps)

lemma div_256_less:
  fixes n k :: int
  assumes "0 \<le> n" and "n < 256 * k"
  shows "0 \<le> n div 256 \<and> n div 256 < k"
proof
  show "0 \<le> n div 256" using assms(1) by (simp add: pos_imp_zdiv_nonneg_iff)
  have "n = 256 * (n div 256) + n mod 256" by simp
  moreover have "0 \<le> n mod 256" by simp
  ultimately show "n div 256 < k" using assms(2) by linarith
qed

lemma numToBytes_fits:
  "0 \<le> n \<Longrightarrow> n < 256 ^ w \<Longrightarrow>
   length (numToBytes n) \<le> w \<and>
   numToBytes n @ replicate (w - length (numToBytes n)) 0 = le_bytes w n"
proof (induction w arbitrary: n)
  case 0
  then have "n = 0" by simp
  then show ?case by (simp add: numToBytes_nonpos)
next
  case (Suc w)
  show ?case
  proof (cases "n = 0")
    case True
    then show ?thesis by (simp add: numToBytes_nonpos le_bytes_zero)
  next
    case False
    with Suc.prems have pos: "0 < n" by simp
    have "0 \<le> n div 256 \<and> n div 256 < 256 ^ w"
      using div_256_less [of n "256 ^ w"] Suc.prems by simp
    then have "0 \<le> n div 256" and "n div 256 < 256 ^ w" by simp_all
    then have ih: "length (numToBytes (n div 256)) \<le> w \<and>
        numToBytes (n div 256) @ replicate (w - length (numToBytes (n div 256))) 0 =
          le_bytes w (n div 256)"
      by (rule Suc.IH)
    then show ?thesis by (simp add: numToBytes_pos [OF pos])
  qed
qed

lemma bytesToNum_le_bytes:
  "0 \<le> n \<Longrightarrow> n < 256 ^ w \<Longrightarrow> bytesToNum (le_bytes w n) = n"
proof (induction w arbitrary: n)
  case 0
  then show ?case by simp
next
  case (Suc w)
  have "0 \<le> n div 256 \<and> n div 256 < 256 ^ w"
    using div_256_less [of n "256 ^ w"] Suc.prems by simp
  then have "0 \<le> n div 256" and "n div 256 < 256 ^ w" by simp_all
  then have ih: "bytesToNum (le_bytes w (n div 256)) = n div 256" by (rule Suc.IH)
  have "uint (word_of_int (n mod 256) :: byte) = n mod 256"
    by (simp add: uint_word_of_int)
  then show ?case using ih by simp
qed

lemma toNum_spec_fixed:
  "0 \<le> n \<Longrightarrow> n < 256 ^ w \<Longrightarrow> toNum endian (spec_fixed (endian_or_be endian) w n) = n"
  by (cases "endian_or_be endian")
     (simp_all add: toNum_def spec_fixed_def reverse_rev bytesToNum_le_bytes)

lemma numToBuff_aligned:
  assumes "0 \<le> n" and "n < 256 ^ w" and "aligned side endian"
  shows "numToBuff (pad_array side) n (Some w) endian = spec_fixed (endian_or_be endian) w n"
proof -
  from numToBytes_fits [OF assms(1,2)]
  have l: "length (numToBytes n) \<le> w"
    and e: "numToBytes n @ replicate (w - length (numToBytes n)) 0 = le_bytes w n" by simp_all
  show ?thesis
  proof (cases "endian_or_be endian")
    case BE
    then have s: "side = PadStart" using assms(3) by (simp add: aligned_def)
    have "replicate (w - length (numToBytes n)) 0 @ rev (numToBytes n) = rev (le_bytes w n)"
      using e [symmetric] by simp
    then show ?thesis
      using BE l by (simp add: numToBuff_def Buff_ctor_def buffer_def pad_array_def s spec_fixed_def)
  next
    case LE
    then have s: "side = PadEnd" using assms(3) by (simp add: aligned_def)
    show ?thesis
      using LE l e by (simp add: numToBuff_def Buff_ctor_def buffer_def pad_array_def s spec_fixed_def)
  qed
qed

lemma numToBuff_single:
  assumes "0 \<le> n" and "n < 256"
  shows "numToBuff (pad_array side) n (Some 1) endian = [word_of_int n]"
proof -
  from numToBytes_fits [of n 1] assms
  have l: "length (numToBytes n) \<le> 1"
    and e: "numToBytes n @ replicate (1 - length (numToBytes n)) 0 = [word_of_int (n mod 256)]"
    by simp_all
  have m: "n mod 256 = n" using assms by simp
  show ?thesis
  proof (cases "numToBytes n")
    case Nil
    then show ?thesis
      using e m
      by (cases side) (simp_all add: numToBuff_def Buff_ctor_def buffer_def pad_array_def Let_def)
  next
    case (Cons x xs)
    with l have "xs = []" by simp
    with Cons e m have "numToBytes n = [word_of_int n]" by simp
    then show ?thesis
      by (cases side) (simp_all add: numToBuff_def Buff_ctor_def buffer_def pad_array_def Let_def)
  qed
qed

lemma varInt_ValueTooLarge_iff:
  "varInt pad n endian = Inl ValueTooLarge \<longleftrightarrow> 2 ^ 64 \<le> n"
  by (simp add: varInt_def)

lemma varInt_refines_spec_aligned:
  assumes "0 \<le> n" and "aligned side endian"
  shows "varInt (pad_array side) n endian = spec_varInt n endian"
proof -
  have a: "n < 0xFD \<Longrightarrow> numToBuff (pad_array side) n (Some 1) None = [word_of_int n]"
    using assms(1) numToBuff_single [of n side None] by simp
  have b: "n < 0x10000 \<Longrightarrow>
      numToBuff (pad_array side) n (Some 2) endian = spec_fixed (endian_or_be endian) 2 n"
    using numToBuff_aligned [OF assms(1) _ assms(2), of 2] by simp
  have c: "n < 0x100000000 \<Longrightarrow>
      numToBuff (pad_array side) n (Some 4) endian = spec_fixed (endian_or_be endian) 4 n"
    using numToBuff_aligned [OF assms(1) _ assms(2), of 4] by simp
  have d: "n < 0x10000000000000000 \<Longrightarrow>
      numToBuff (pad_array side) n (Some 8) endian = spec_fixed (endian_or_be endian) 8 n"
    using numToBuff_aligned [OF assms(1) _ assms(2), of 8] by simp
  show ?thesis
    using a b c d by (simp add: varInt_def spec_varInt_def Buff_of_spread)
qed

lemma readSize_direct:
  "uint b < 0xFD \<Longrightarrow> readSize endian (Stream_new [b]) = (Inr (uint b), \<lparr>size_s = 0, data_s = []\<rparr>)"
  by (simp add: readSize_def stream_eq read_sized_nonneg num_single)

lemma readSize_FD:
  "length c = 2 \<Longrightarrow>
   readSize endian (Stream_new (0xFD # c)) = (Inr (toNum endian c), \<lparr>size_s = 0, data_s = []\<rparr>)"
  by (simp add: readSize_def stream_eq read_sized_nonneg num_single)

lemma readSize_FE:
  "length c = 4 \<Longrightarrow>
   readSize endian (Stream_new (0xFE # c)) = (Inr (toNum endian c), \<lparr>size_s = 0, data_s = []\<rparr>)"
  by (simp add: readSize_def stream_eq read_sized_nonneg num_single)

lemma readSize_FF:
  "length c = 8 \<Longrightarrow>
   readSize endian (Stream_new (0xFF # c)) = (Inr (toNum endian c), \<lparr>size_s = 0, data_s = []\<rparr>)"
  by (simp add: readSize_def stream_eq read_sized_nonneg num_single)

lemma length_spec_fixed: "length (spec_fixed e w n) = w"
  by (cases e) (simp_all add: spec_fixed_def length_le_bytes)

lemma varInt_readSize_aligned:
  assumes "0 \<le> n" and "n < 2 ^ 64" and "aligned side endian"
  shows "varInt_readSize (pad_array side) n endian = Inr (n, \<lparr>size_s = 0, data_s = []\<rparr>)"
proof -
  have v: "varInt (pad_array side) n endian = spec_varInt n endian"
    by (rule varInt_refines_spec_aligned [OF assms(1,3)])
  consider (a) "n < 0xFD" | (b) "0xFD \<le> n" "n < 0x10000"
    | (c) "0x10000 \<le> n" "n < 0x100000000" | (d) "0x100000000 \<le> n"
    by linarith
  then show ?thesis
  proof cases
    case a
    have "uint (word_of_int n :: byte) = n"
      using assms(1) a by (simp add: uint_word_of_int)
    then show ?thesis
      using a readSize_direct [of "word_of_int n" endian]
      by (simp add: varInt_readSize_def v spec_varInt_def)
  next
    case b
    have "toNum endian (spec_fixed (endian_or_be endian) 2 n) = n"
      using toNum_spec_fixed [OF assms(1), of 2 endian] b by simp
    then show ?thesis
      using b by (simp add: varInt_readSize_def v spec_varInt_def readSize_FD length_spec_fixed)
  next
    case c
    have "toNum endian (spec_fixed (endian_or_be endian) 4 n) = n"
      using toNum_spec_fixed [OF assms(1), of 4 endian] c by simp
    then show ?thesis
      using c by (simp add: varInt_readSize_def v spec_varInt_def readSize_FE length_spec_fixed)
  next
    case d
    have "toNum endian (spec_fixed (endian_or_be endian) 8 n) = n"
      using toNum_spec_fixed [OF assms(1), of 8 endian] assms(2) by simp
    then show ?thesis
      using d assms(2)
      by (simp add: varInt_readSize_def v spec_varInt_def readSize_FF length_spec_fixed)
  qed
qed

section \<open>The claims about the buffer\<close>

text \<open>
  Claim C1 at the value 253, the smallest one with a padded field. Its natural bytes are
  the single byte \<open>0xFD\<close>, which reversal leaves alone, so \<^verbatim>\<open>varInt(253, 'be')\<close> and
  \<^verbatim>\<open>varInt(253, 'le')\<close> hand the same bytes and size to the padding collaborator and
  produce the same three bytes, whatever that collaborator does: the two round trips
  cannot both return 253. With zeros in front the little-endian round trip returns
  64768, with zeros behind the big-endian one (also the default) does.
\<close>

theorem varInt_roundtrip_endian_conflict:
  "\<not> (varInt_readSize pad 253 (Some BE) = Inr (253, s1) \<and>
      varInt_readSize pad 253 (Some LE) = Inr (253, s2)) \<and>
   varInt_readSize (pad_array PadStart) 253 (Some LE) = Inr (64768, \<lparr>size_s = 0, data_s = []\<rparr>) \<and>
   varInt_readSize (pad_array PadEnd) 253 (Some BE) = Inr (64768, \<lparr>size_s = 0, data_s = []\<rparr>) \<and>
   varInt_readSize (pad_array PadEnd) 253 None = Inr (64768, \<lparr>size_s = 0, data_s = []\<rparr>)"
proof -
  have a: "varInt_readSize (pad_array PadStart) 253 (Some LE) =
      Inr (64768, \<lparr>size_s = 0, data_s = []\<rparr>)" by code_simp
  have b: "varInt_readSize (pad_array PadEnd) 253 (Some BE) =
      Inr (64768, \<lparr>size_s = 0, data_s = []\<rparr>)" by code_simp
  have c: "varInt_readSize (pad_array PadEnd) 253 None =
      Inr (64768, \<lparr>size_s = 0, data_s = []\<rparr>)" by code_simp
  show ?thesis by (intro conjI roundtrip_253_conflict a b c)
qed

text \<open>
  Claim C2 at the value 253. The spec's wire format differs between the two
  endiannesses (\<open>FD FD 00\<close> little-endian, \<open>FD 00 FD\<close> big-endian), while \<open>varInt\<close>
  produces one byte sequence for both, whatever the padding collaborator does: with
  zeros in front the little-endian request gets the big-endian bytes, with zeros behind
  the big-endian request (also the default) gets the little-endian bytes.
\<close>

theorem varInt_endianness_ignored_by_padding:
  "varInt pad 253 (Some LE) = varInt pad 253 (Some BE) \<and>
   spec_varInt 253 (Some LE) = Inr [0xFD, 0xFD, 0] \<and>
   spec_varInt 253 (Some BE) = Inr [0xFD, 0, 0xFD] \<and>
   varInt (pad_array PadStart) 253 (Some LE) = Inr [0xFD, 0, 0xFD] \<and>
   varInt (pad_array PadEnd) 253 (Some BE) = Inr [0xFD, 0xFD, 0] \<and>
   varInt (pad_array PadEnd) 253 None = Inr [0xFD, 0xFD, 0]"
proof -
  have a: "varInt pad 253 (Some LE) = varInt pad 253 (Some BE)" by (simp add: varInt_253)
  have b: "spec_varInt 253 (Some LE) = Inr [0xFD, 0xFD, 0]" by code_simp
  have c: "spec_varInt 253 (Some BE) = Inr [0xFD, 0, 0xFD]" by code_simp
  have d: "varInt (pad_array PadStart) 253 (Some LE) = Inr [0xFD, 0, 0xFD]" by code_simp
  have e: "varInt (pad_array PadEnd) 253 (Some BE) = Inr [0xFD, 0xFD, 0]" by code_simp
  have f: "varInt (pad_array PadEnd) 253 None = Inr [0xFD, 0xFD, 0]" by code_simp
  show ?thesis by (intro conjI a b c d e f)
qed

text \<open>
  Claim C8. Constructing with a target size yields exactly that length, whether the
  source is longer (truncation) or shorter (padding), on either padding side; the same
  holds through \<^verbatim>\<open>Buff.bytes\<close> and \<^verbatim>\<open>Buff.num\<close>.
\<close>

theorem Buff_ctor_fixed_size:
  "length (Buff_ctor (pad_array side) data (Some n)) = n \<and>
   length (bytesToBuff (pad_array side) data (Some n)) = n \<and>
   length (numToBuff (pad_array side) k (Some n) endian) = n"
proof -
  have resize: "length (pad_array side bs n) = n" for bs
  proof (cases "length bs \<le> n")
    case True
    then show ?thesis by (cases side) (simp_all add: pad_array_def)
  next
    case False
    then show ?thesis by (cases side) (simp_all add: pad_array_def)
  qed
  have ctor: "length (Buff_ctor (pad_array side) bs (Some n)) = n" for bs
    by (simp add: Buff_ctor_def resize)
  show ?thesis
    by (simp add: bytesToBuff_def numToBuff_def Let_def ctor)
qed

text \<open>
  Claim C9. \<^verbatim>\<open>reverse()\<close> returns a newly allocated buffer holding the receiver's bytes
  in reversed order and leaves the receiver, and every other array of the store, as it
  was; the buffer built from the hex string \<^verbatim>\<open>"deadbeef"\<close> has length 4 and its
  reverse hex-encodes to \<^verbatim>\<open>"efbeadde"\<close>.
\<close>

theorem reverse_new_buffer:
  assumes "this < length h"
  shows "(case reverse_heap h this of
            (r, h') \<Rightarrow>
              r \<noteq> this \<and> length h \<le> r \<and> r < length h' \<and> h' ! r = rev (h ! this) \<and>
              h' ! r = reverse (h ! this) \<and> h' ! this = h ! this \<and> take (length h) h' = h) \<and>
         hexToBuff pad ''deadbeef'' None = Inr [0xDE, 0xAD, 0xBE, 0xEF] \<and>
         length [0xDE, 0xAD, 0xBE, 0xEF :: byte] = 4 \<and>
         toHex (reverse [0xDE, 0xAD, 0xBE, 0xEF]) = ''efbeadde''"
proof -
  have "reverse (h ! this) = rev (h ! this)" by (rule reverse_rev)
  then show ?thesis
    using assms
    by (simp add: reverse_heap_eq hexToBuff_deadbeef toHex_reverse_deadbeef nth_append)
qed

text \<open>Claim C9 on a store holding the one buffer \<open>de ad be ef\<close>.\<close>

theorem reverse_new_buffer_witness:
  "(0::nat) < length [[0xDE, 0xAD, 0xBE, 0xEF :: byte]] \<and>
   reverse_heap [[0xDE, 0xAD, 0xBE, 0xEF]] 0 =
     (2, [[0xDE, 0xAD, 0xBE, 0xEF], [0xEF, 0xBE, 0xAD, 0xDE], [0xEF, 0xBE, 0xAD, 0xDE]]) \<and>
   toHex ([[0xDE, 0xAD, 0xBE, 0xEF], [0xEF, 0xBE, 0xAD, 0xDE], [0xEF, 0xBE, 0xAD, 0xDE]] ! 2) =
     ''efbeadde'' \<and>
   toHex ([[0xDE, 0xAD, 0xBE, 0xEF], [0xEF, 0xBE, 0xAD, 0xDE], [0xEF, 0xBE, 0xAD, 0xDE]] ! 0) =
     ''deadbeef''"
proof -
  have l: "(0::nat) < length [[0xDE, 0xAD, 0xBE, 0xEF :: byte]]" by simp
  have e: "reverse_heap [[0xDE, 0xAD, 0xBE, 0xEF]] 0 =
     (2, [[0xDE, 0xAD, 0xBE, 0xEF], [0xEF, 0xBE, 0xAD, 0xDE], [0xEF, 0xBE, 0xAD, 0xDE]])"
    by (simp add: reverse_heap_def alloc_def reverse_in_place_def buffer_def)
  from reverse_new_buffer [OF l, of pad] e
  have "[[0xDE, 0xAD, 0xBE, 0xEF], [0xEF, 0xBE, 0xAD, 0xDE], [0xEF, 0xBE, 0xAD, 0xDE]] ! 2 =
      reverse [0xDE, 0xAD, 0xBE, 0xEF :: byte]"
    and t: "toHex (reverse [0xDE, 0xAD, 0xBE, 0xEF]) = ''efbeadde''"
    by simp_all
  then have a: "toHex ([[0xDE, 0xAD, 0xBE, 0xEF], [0xEF, 0xBE, 0xAD, 0xDE],
      [0xEF, 0xBE, 0xAD, 0xDE]] ! 2) = ''efbeadde''" by simp
  have b: "toHex ([[0xDE, 0xAD, 0xBE, 0xEF], [0xEF, 0xBE, 0xAD, 0xDE],
      [0xEF, 0xBE, 0xAD, 0xDE]] ! 0) = ''deadbeef''"
    by (simp add: toHex_def bytesToHex_def hex_char_def)
  show ?thesis by (intro conjI l e a b)
qed

text \<open>
  Claim C10. \<^verbatim>\<open>Buff.varInt\<close> does not validate that its input is non-negative: a
  negative number satisfies \<^verbatim>\<open>num < 0xFD\<close>, so the single-byte branch is taken, nothing
  is thrown, and the result is one byte long.
\<close>

theorem varInt_negative_single_byte:
  assumes "n < 0"
  shows "varInt pad n endian = Inr (numToBuff pad n (Some 1) None) \<and>
         varInt (pad_array side) n endian = Inr [0] \<and>
         length (numToBuff (pad_array side) n (Some 1) None) = 1"
proof -
  have a: "varInt pad n endian = Inr (numToBuff pad n (Some 1) None)"
    using assms by (simp add: varInt_def)
  have b: "numToBuff (pad_array side) n (Some 1) None = [0]"
    using assms
    by (cases side) (simp_all add: numToBuff_def numToBytes_nonpos Buff_ctor_def buffer_def
        pad_array_def)
  have c: "varInt (pad_array side) n endian = Inr [0]"
    using assms b by (simp add: varInt_def)
  show ?thesis using b by (intro conjI a c) simp
qed

text \<open>Claim C10 at \<open>-5\<close>, on both padding sides.\<close>

theorem varInt_negative_single_byte_witness:
  "(-5::int) < 0 \<and> varInt (pad_array PadStart) (-5) (Some LE) = Inr [0] \<and>
   varInt (pad_array PadEnd) (-5) None = Inr [0]"
proof -
  have n: "(-5::int) < 0" by simp
  have a: "varInt (pad_array PadStart) (-5) (Some LE) = Inr [0]"
    using varInt_negative_single_byte [OF n, of "pad_array PadStart" "Some LE" PadStart]
    by blast
  have b: "varInt (pad_array PadEnd) (-5) None = Inr [0]"
    using varInt_negative_single_byte [OF n, of "pad_array PadEnd" None PadEnd]
    by blast
  show ?thesis by (intro conjI n a b)
qed

end
